theory Spec2Isabelle
  imports Complex_Main "HOL-Library.Sublist"
begin

section \<open>settings.py: the configuration\<close>

text \<open>
  \<^verbatim>\<open>PlexSettings\<close> and \<^verbatim>\<open>Settings\<close> with the fields and defaults they declare.
  There is no field for a delay.
\<close>

record PlexSettings =
  url :: string
  token :: string

record Settings =
  log_level :: string
  media_extensions :: "string list"
  library_paths :: "string list"
  plex :: PlexSettings

definition default_plex_settings :: PlexSettings where
  "default_plex_settings = \<lparr>url = ''http://localhost:32400'', token = []\<rparr>"

definition default_settings :: Settings where
  "default_settings = \<lparr>log_level = ''INFO'',
     media_extensions = [''.mkv'', ''.mp4'', ''.avi'', ''.mov'', ''.wmv'', ''.flv'', ''.webm'',
       ''.mp3'', ''.flac'', ''.wav'', ''.aac'', ''.ogg'', ''.m4a''],
     library_paths = [''/path/to/plex/library''],
     plex = default_plex_settings\<rparr>"

text \<open>
  The settings file is JSON. \<^verbatim>\<open>Settings.model_validate_json\<close> is modelled on the
  parsed document: a declared field that is absent takes its default, a declared field
  of the wrong JSON type is a validation error, and a key that names no declared field
  is dropped (\<^verbatim>\<open>extra="ignore"\<close>). In an object a repeated key takes its last value.
\<close>

datatype json =
  JNull | JBool bool | JNumber int | JString string | JArray "json list"
  | JObject "(string \<times> json) list"

datatype settings_error = ValidationError

definition json_field :: "(string \<times> json) list \<Rightarrow> string \<Rightarrow> json option" where
  "json_field members name = map_of (rev members) name"

fun str_value :: "json \<Rightarrow> string option" where
  "str_value (JString s) = Some s"
| "str_value _ = None"

fun str_values :: "json list \<Rightarrow> string list option" where
  "str_values [] = Some []"
| "str_values (j # js) =
     (case (str_value j, str_values js) of
        (Some s, Some ss) \<Rightarrow> Some (s # ss)
      | _ \<Rightarrow> None)"

fun str_list_value :: "json \<Rightarrow> string list option" where
  "str_list_value (JArray js) = str_values js"
| "str_list_value _ = None"

definition validate_field :: "'a \<Rightarrow> (json \<Rightarrow> 'a option) \<Rightarrow> json option \<Rightarrow> 'a option" where
  "validate_field dflt conv j = (case j of None \<Rightarrow> Some dflt | Some v \<Rightarrow> conv v)"

fun plex_settings_value :: "json \<Rightarrow> PlexSettings option" where
  "plex_settings_value (JObject members) =
     (case (validate_field (url default_plex_settings) str_value (json_field members ''url''),
            validate_field (token default_plex_settings) str_value (json_field members ''token'')) of
        (Some u, Some t) \<Rightarrow> Some \<lparr>url = u, token = t\<rparr>
      | _ \<Rightarrow> None)"
| "plex_settings_value _ = None"

fun model_validate_json :: "json \<Rightarrow> settings_error + Settings" where
  "model_validate_json (JObject members) =
     (case (validate_field (log_level default_settings) str_value (json_field members ''log_level''),
            validate_field (media_extensions default_settings) str_list_value
              (json_field members ''media_extensions''),
            validate_field (library_paths default_settings) str_list_value
              (json_field members ''library_paths''),
            validate_field (plex default_settings) plex_settings_value (json_field members ''plex'')) of
        (Some l, Some m, Some p, Some x) \<Rightarrow>
          Inr \<lparr>log_level = l, media_extensions = m, library_paths = p, plex = x\<rparr>
      | _ \<Rightarrow> Inl ValidationError)"
| "model_validate_json _ = Inl ValidationError"

text \<open>
  \<^verbatim>\<open>load_or_create_settings\<close>: the argument is the document at the settings path,
  \<open>None\<close> when the file does not exist (the defaults are then written and returned).
\<close>

definition load_or_create_settings :: "json option \<Rightarrow> settings_error + Settings" where
  "load_or_create_settings file =
     (case file of Some document \<Rightarrow> model_validate_json document | None \<Rightarrow> Inr default_settings)"

section \<open>database.py: the known-file store\<close>

text \<open>
  The table \<^verbatim>\<open>plex_library_files\<close> is the list of its rows
  \<open>(library_key, file_path)\<close> in insertion order; the \<^verbatim>\<open>id\<close> column, which SQLite
  assigns and the program never reads, is left out. The type of the library key is a
  parameter: the program stores, compares and passes it on. A database file is the map
  from table names to tables, the disk the map from paths to database files.
\<close>

type_synonym 'k table_rows = "('k \<times> string) list"
type_synonym 'k database = "string \<rightharpoonup> 'k table_rows"
type_synonym 'k disk = "string \<rightharpoonup> 'k database"

definition plex_library_files :: string where
  "plex_library_files = ''plex_library_files''"

record DatabaseManager =
  db_path :: string
  connection :: bool
  cursor :: bool

text \<open>
  What the calls that \<^verbatim>\<open>connect\<close> makes outside the program do: whether
  \<^verbatim>\<open>os.remove\<close> raises \<^verbatim>\<open>OSError\<close>, and where, if at all, SQLite raises
  \<^verbatim>\<open>sqlite3.Error\<close>.
\<close>

datatype sqlite_outcome = Sqlite_ok | Connect_raises | Create_table_raises

record os_behaviour =
  remove_raises :: bool
  sqlite :: sqlite_outcome

text \<open>\<^verbatim>\<open>CREATE TABLE IF NOT EXISTS plex_library_files (...)\<close>: an existing table is kept.\<close>

definition create_table_if_not_exists :: "'k database \<Rightarrow> 'k database" where
  "create_table_if_not_exists d =
     (case d plex_library_files of
        None \<Rightarrow> d(plex_library_files \<mapsto> [])
      | Some rows \<Rightarrow> d)"

text \<open>
  \<^verbatim>\<open>sqlite3.connect(self.db_path)\<close> opens the file at the path, creating an empty
  database when there is none; then the cursor, then the table.
\<close>

definition open_database :: "string \<Rightarrow> 'k disk \<Rightarrow> 'k database" where
  "open_database path disk = (case disk path of None \<Rightarrow> Map.empty | Some d \<Rightarrow> d)"

definition connect_sqlite ::
  "os_behaviour \<Rightarrow> DatabaseManager \<Rightarrow> 'k disk \<Rightarrow> DatabaseManager \<times> 'k disk" where
  "connect_sqlite os db disk =
     (case sqlite os of
        Connect_raises \<Rightarrow> (db\<lparr>connection := False\<rparr>, disk)
      | Create_table_raises \<Rightarrow>
          (db\<lparr>connection := False, cursor := True\<rparr>,
           disk(db_path db \<mapsto> open_database (db_path db) disk))
      | Sqlite_ok \<Rightarrow>
          (db\<lparr>connection := True, cursor := True\<rparr>,
           disk(db_path db \<mapsto> create_table_if_not_exists (open_database (db_path db) disk))))"

text \<open>
  \<^verbatim>\<open>DatabaseManager.connect\<close>: an existing file is removed first; \<^verbatim>\<open>OSError\<close> and
  \<^verbatim>\<open>sqlite3.Error\<close> are caught and leave \<^verbatim>\<open>self.connection = None\<close>.
\<close>

definition connect ::
  "os_behaviour \<Rightarrow> DatabaseManager \<Rightarrow> 'k disk \<Rightarrow> DatabaseManager \<times> 'k disk" where
  "connect os db disk =
     (if disk (db_path db) \<noteq> None
      then (if remove_raises os then (db\<lparr>connection := False\<rparr>, disk)
            else connect_sqlite os db (disk(db_path db := None)))
      else connect_sqlite os db disk)"

text \<open>\<^verbatim>\<open>DatabaseManager.__init__\<close>\<close>

definition DatabaseManager_init ::
  "os_behaviour \<Rightarrow> string \<Rightarrow> 'k disk \<Rightarrow> DatabaseManager \<times> 'k disk" where
  "DatabaseManager_init os path disk =
     connect os \<lparr>db_path = path, connection = False, cursor = False\<rparr> disk"

text \<open>
  \<^verbatim>\<open>INSERT OR IGNORE INTO plex_library_files (library_key, file_path) VALUES (?, ?)\<close>
  for one row. The only constraint a row of two values can break is
  \<^verbatim>\<open>file_path TEXT NOT NULL UNIQUE\<close>; the row is then skipped.
\<close>

definition insert_or_ignore :: "'k table_rows \<Rightarrow> 'k \<times> string \<Rightarrow> 'k table_rows" where
  "insert_or_ignore rows r = (if snd r \<in> set (map snd rows) then rows else rows @ [r])"

text \<open>\<^verbatim>\<open>cursor.executemany\<close> runs the statement for each row of the data in order.\<close>

definition executemany_insert :: "'k table_rows \<Rightarrow> ('k \<times> string) list \<Rightarrow> 'k table_rows" where
  "executemany_insert rows data = foldl insert_or_ignore rows data"

text \<open>
  \<^verbatim>\<open>insert_plex_library_files\<close>: nothing without a connection; an
  \<^verbatim>\<open>sqlite3.Error\<close> (no database file, no table) is caught and logged.
\<close>

definition insert_plex_library_files ::
  "('k \<times> string) list \<Rightarrow> DatabaseManager \<Rightarrow> 'k disk \<Rightarrow> 'k disk" where
  "insert_plex_library_files data db disk =
     (if \<not> connection db then disk
      else case disk (db_path db) of
        None \<Rightarrow> disk
      | Some d \<Rightarrow>
          (case d plex_library_files of
             None \<Rightarrow> disk
           | Some rows \<Rightarrow>
               disk(db_path db \<mapsto> d(plex_library_files \<mapsto> executemany_insert rows data))))"

text \<open>The rows of the table behind a manager, when there is one.\<close>

definition stored_rows :: "DatabaseManager \<Rightarrow> 'k disk \<Rightarrow> 'k table_rows option" where
  "stored_rows db disk =
     (case disk (db_path db) of None \<Rightarrow> None | Some d \<Rightarrow> d plex_library_files)"

text \<open>A connected manager and a store that knows one file, used in the examples.\<close>

definition example_db :: DatabaseManager where
  "example_db = \<lparr>db_path = ''config/rescan.db'', connection = True, cursor = True\<rparr>"

definition example_disk :: "int disk" where
  "example_disk = [''config/rescan.db'' \<mapsto> [plex_library_files \<mapsto> [(1, ''/lib/a.mkv'')]]]"

section \<open>plex.py: library sections and path resolution\<close>

text \<open>
  \<^verbatim>\<open>class LibraryInfo(NamedTuple)\<close>: one record per Plex library section, as
  \<^verbatim>\<open>get_library_sections\<close> builds it.
\<close>

record LibraryInfo =
  title :: string
  key :: string
  locations :: "string list"
  library_type :: string
  agent :: string
  scanner :: string

text \<open>\<^verbatim>\<open>file_path.startswith(location)\<close>\<close>

definition startswith :: "string \<Rightarrow> string \<Rightarrow> bool" where
  "startswith s pre = prefix pre s"

text \<open>
  The inner loop of \<^verbatim>\<open>find_library_by_path\<close>:
  \<^verbatim>\<open>for location in section.locations: if file_path.startswith(location): return section\<close>.
  It tells whether the loop returns.
\<close>

fun location_matches :: "string \<Rightarrow> string list \<Rightarrow> bool" where
  "location_matches file_path [] = False"
| "location_matches file_path (location # rest) =
     (if startswith file_path location then True else location_matches file_path rest)"

text \<open>The outer loop over \<^verbatim>\<open>self.library_sections\<close>; \<^verbatim>\<open>return None\<close> at the end.\<close>

fun find_library_by_path :: "LibraryInfo list \<Rightarrow> string \<Rightarrow> LibraryInfo option" where
  "find_library_by_path [] file_path = None"
| "find_library_by_path (sec # sections) file_path =
     (if location_matches file_path (locations sec) then Some sec
      else find_library_by_path sections file_path)"

text \<open>
  The reading of the specification's data model: the owning library is the one with the
  longest root location that is a prefix of the path. \<open>owns_longest_match\<close> says that
  \<open>sec\<close> has a matching location at least as long as every matching location of every
  section.
\<close>

definition owns_longest_match :: "LibraryInfo list \<Rightarrow> string \<Rightarrow> LibraryInfo \<Rightarrow> bool" where
  "owns_longest_match sections file_path sec =
     list_ex (\<lambda>loc. startswith file_path loc \<and>
        list_all (\<lambda>other. list_all (\<lambda>loc'. startswith file_path loc' \<longrightarrow> length loc' \<le> length loc)
           (locations other)) sections)
       (locations sec)"

text \<open>Two sections with nested roots, used in the examples.\<close>

definition lib_media :: LibraryInfo where
  "lib_media = \<lparr>title = ''Everything'', key = ''1'', locations = [''/media''],
     library_type = ''movie'', agent = ''Unknown'', scanner = ''Unknown''\<rparr>"

definition lib_movies :: LibraryInfo where
  "lib_movies = \<lparr>title = ''Movies'', key = ''2'', locations = [''/media/movies''],
     library_type = ''movie'', agent = ''Unknown'', scanner = ''Unknown''\<rparr>"

section \<open>plex.py: the startup reconciliation\<close>

text \<open>
  The fields of \<^verbatim>\<open>class Plex\<close> that \<^verbatim>\<open>full_scan\<close> reads. \<open>server\<close> tells whether
  \<^verbatim>\<open>self.server\<close> is a connection (\<open>False\<close> for \<^verbatim>\<open>None\<close>).
\<close>

record Plex =
  server :: bool
  media_extensions :: "string list"
  local_library_paths :: "string list"
  library_sections :: "LibraryInfo list"

text \<open>
  \<^verbatim>\<open>Plex.__init__\<close>: the settings are copied; whether the server answered and what
  \<^verbatim>\<open>get_library_sections\<close> returned come from outside.
\<close>

definition Plex_init :: "Settings \<Rightarrow> bool \<Rightarrow> LibraryInfo list \<Rightarrow> Plex" where
  "Plex_init settings answered sections =
     \<lparr>server = answered,
      media_extensions = Settings.media_extensions settings,
      local_library_paths = library_paths settings,
      library_sections = (if answered then sections else [])\<rparr>"

text \<open>
  What \<^verbatim>\<open>full_scan\<close> calls outside the program: the file system
  (\<^verbatim>\<open>Path.exists\<close>, \<^verbatim>\<open>os.walk\<close>), the path operations of \<^verbatim>\<open>pathlib\<close> on the string
  of a path (\<^verbatim>\<open>str(Path(root) / file)\<close>, \<^verbatim>\<open>.suffix\<close>, \<^verbatim>\<open>.name\<close>), \<^verbatim>\<open>str.lower\<close>, and
  the request \<^verbatim>\<open>self.server.library.sectionByID(library_key).update(path=...)\<close>, which
  returns, raises \<^verbatim>\<open>PlexApiException\<close> or raises something else.
\<close>

datatype update_outcome = Update_returns | Update_raises_PlexApiException | Update_raises_other

record environment =
  path_exists :: "string \<Rightarrow> bool"
  os_walk :: "string \<Rightarrow> (string \<times> string list \<times> string list) list"
  join_path :: "string \<Rightarrow> string \<Rightarrow> string"
  path_suffix :: "string \<Rightarrow> string"
  path_name :: "string \<Rightarrow> string"
  str_lower :: "string \<Rightarrow> string"
  section_update :: "string \<Rightarrow> string \<Rightarrow> update_outcome"

text \<open>The exceptions that reach the handlers around the walk.\<close>

datatype scan_exception = Sqlite_error | Attribute_error | Unexpected_error

text \<open>One entry for each request made of the server, in order.\<close>

record scan_request =
  request_key :: string
  request_path :: string
  request_outcome :: update_outcome

text \<open>
  \<^verbatim>\<open>send_scan_request\<close>: nothing without a server; \<^verbatim>\<open>PlexApiException\<close> is caught here,
  any other exception leaves the function.
\<close>

definition send_scan_request ::
  "environment \<Rightarrow> Plex \<Rightarrow> string \<Rightarrow> string \<Rightarrow> scan_request list
     \<Rightarrow> scan_request list \<times> scan_exception option" where
  "send_scan_request env px library_key file_path sent =
     (if \<not> server px then (sent, None)
      else let request = \<lparr>request_key = library_key, request_path = file_path,
                           request_outcome = section_update env library_key file_path\<rparr>
           in case section_update env library_key file_path of
                Update_returns \<Rightarrow> (sent @ [request], None)
              | Update_raises_PlexApiException \<Rightarrow> (sent @ [request], None)
              | Update_raises_other \<Rightarrow> (sent @ [request], Some Unexpected_error))"

text \<open>
  \<^verbatim>\<open>SELECT 1 FROM plex_library_files WHERE library_key = ? AND file_path = ?\<close> through
  \<^verbatim>\<open>self.db.cursor\<close>, then \<^verbatim>\<open>fetchone()\<close>: whether a row was found, or the exception.
\<close>

definition is_cached ::
  "DatabaseManager \<Rightarrow> 'k disk \<Rightarrow> 'k \<Rightarrow> string \<Rightarrow> scan_exception + bool" where
  "is_cached db disk library_key file_path =
     (if \<not> cursor db then Inl Attribute_error
      else case stored_rows db disk of
        None \<Rightarrow> Inl Sqlite_error
      | Some rows \<Rightarrow> Inr ((library_key, file_path) \<in> set rows))"

text \<open>
  A \<^verbatim>\<open>for\<close> loop inside a \<^verbatim>\<open>try\<close>: the body runs for each element in order, and an
  exception in the body ends the loop.
\<close>

fun for_each :: "('a \<Rightarrow> 's \<Rightarrow> 's \<times> 'e option) \<Rightarrow> 'a list \<Rightarrow> 's \<Rightarrow> 's \<times> 'e option" where
  "for_each body [] s = (s, None)"
| "for_each body (x # xs) s =
     (case body x s of
        (s', Some e) \<Rightarrow> (s', Some e)
      | (s', None) \<Rightarrow> for_each body xs s')"

text \<open>
  The test on a file of the walk:
  \<^verbatim>\<open>file_path.suffix.lower() in self.media_extensions and not file_path.name.startswith(".")\<close>.
\<close>

definition is_scan_candidate :: "environment \<Rightarrow> Plex \<Rightarrow> string \<Rightarrow> bool" where
  "is_scan_candidate env px file_path \<longleftrightarrow>
     str_lower env (path_suffix env file_path) \<in> set (media_extensions px)
     \<and> \<not> startswith (path_name env file_path) ''.''"

text \<open>The body of the innermost loop, for the file at \<open>file_path\<close>.\<close>

definition scan_file ::
  "environment \<Rightarrow> Plex \<Rightarrow> DatabaseManager \<Rightarrow> string disk \<Rightarrow> string \<Rightarrow> scan_request list
     \<Rightarrow> scan_request list \<times> scan_exception option" where
  "scan_file env px db disk file_path sent =
     (if is_scan_candidate env px file_path
      then case find_library_by_path (library_sections px) file_path of
             None \<Rightarrow> (sent, None)
           | Some library \<Rightarrow>
               (case is_cached db disk (key library) file_path of
                  Inl e \<Rightarrow> (sent, Some e)
                | Inr True \<Rightarrow> (sent, None)
                | Inr False \<Rightarrow> send_scan_request env px (key library) file_path sent)
      else (sent, None))"

text \<open>\<^verbatim>\<open>for file in files\<close>, for one \<^verbatim>\<open>(root, dirs, files)\<close> of the walk.\<close>

definition scan_directory ::
  "environment \<Rightarrow> Plex \<Rightarrow> DatabaseManager \<Rightarrow> string disk \<Rightarrow> string \<times> string list \<times> string list
     \<Rightarrow> scan_request list \<Rightarrow> scan_request list \<times> scan_exception option" where
  "scan_directory env px db disk entry sent =
     (case entry of (walk_root, dirs, files) \<Rightarrow>
        for_each (\<lambda>file. scan_file env px db disk (join_path env walk_root file)) files sent)"

text \<open>
  The body of \<^verbatim>\<open>for library_path in self.local_library_paths\<close>: a path that does not
  exist is skipped, the others are walked.
\<close>

definition scan_library_path ::
  "environment \<Rightarrow> Plex \<Rightarrow> DatabaseManager \<Rightarrow> string disk \<Rightarrow> string
     \<Rightarrow> scan_request list \<Rightarrow> scan_request list \<times> scan_exception option" where
  "scan_library_path env px db disk library_path sent =
     (if \<not> path_exists env library_path then (sent, None)
      else for_each (scan_directory env px db disk) (os_walk env library_path) sent)"

text \<open>
  \<^verbatim>\<open>full_scan\<close>: the requests it made, and the exception that ended the walk, if one
  did (both handlers log it and return).
\<close>

definition full_scan ::
  "environment \<Rightarrow> Plex \<Rightarrow> DatabaseManager \<Rightarrow> string disk
     \<Rightarrow> scan_request list \<times> scan_exception option" where
  "full_scan env px db disk =
     (if \<not> server px then ([], None)
      else for_each (scan_library_path env px db disk) (local_library_paths px) [])"

text \<open>The files the walk comes to, in its order: those of one root, and those of all roots.\<close>

definition walked_files :: "environment \<Rightarrow> string \<Rightarrow> string list" where
  "walked_files env library_path =
     concat (map (\<lambda>(walk_root, dirs, files). map (join_path env walk_root) files)
       (os_walk env library_path))"

definition enumerated_files :: "environment \<Rightarrow> Plex \<Rightarrow> string list" where
  "enumerated_files env px =
     concat (map (walked_files env) (filter (path_exists env) (local_library_paths px)))"

text \<open>
  An environment for the examples: one root \<open>/lib\<close> with three media files, names and
  suffixes read off a POSIX path as \<^verbatim>\<open>pathlib\<close> does for such names (they are in lower
  case already), and a server that answers every request. In \<open>failing_env\<close> the
  request for \<open>/lib/a/new.mkv\<close> raises an exception that is not a
  \<^verbatim>\<open>PlexApiException\<close>. The store knows \<open>/lib/a/movie.mkv\<close>.
\<close>

definition posix_name :: "string \<Rightarrow> string" where
  "posix_name p = rev (takeWhile (\<lambda>c. c \<noteq> CHR ''/'') (rev p))"

definition posix_suffix :: "string \<Rightarrow> string" where
  "posix_suffix p =
     (let n = posix_name p; e = takeWhile (\<lambda>c. c \<noteq> CHR ''.'') (rev n)
      in if e \<noteq> [] \<and> length e + 1 < length n then CHR ''.'' # rev e else [])"

definition example_env :: environment where
  "example_env =
     \<lparr>path_exists = (\<lambda>p. p = ''/lib''),
      os_walk = (\<lambda>p. if p = ''/lib''
                      then [(''/lib'', [''a''], []),
                            (''/lib/a'', [], [''movie.mkv'', ''new.mkv'', ''zed.mkv''])]
                      else []),
      join_path = (\<lambda>r f. r @ ''/'' @ f),
      path_suffix = posix_suffix,
      path_name = posix_name,
      str_lower = (\<lambda>s. s),
      section_update = (\<lambda>k p. Update_returns)\<rparr>"

definition failing_env :: environment where
  "failing_env = example_env\<lparr>section_update :=
     (\<lambda>k p. if p = ''/lib/a/new.mkv'' then Update_raises_other else Update_returns)\<rparr>"

definition example_plex :: Plex where
  "example_plex =
     \<lparr>server = True, media_extensions = [''.mkv'', ''.mp4''],
      local_library_paths = [''/lib'', ''/missing''],
      library_sections = [\<lparr>title = ''Movies'', key = ''1'', locations = [''/lib''],
        library_type = ''movie'', agent = ''Unknown'', scanner = ''Unknown''\<rparr>]\<rparr>"

definition example_store :: "string disk" where
  "example_store = [''config/rescan.db'' \<mapsto> [plex_library_files \<mapsto> [(''1'', ''/lib/a/movie.mkv'')]]]"


text \<open>The same libraries with the root \<open>/lib\<close> configured twice.\<close>

definition repeated_roots_plex :: Plex where
  "repeated_roots_plex = example_plex\<lparr>local_library_paths := [''/lib'', ''/lib'']\<rparr>"

section \<open>main.py: the batch scan manager\<close>

text \<open>\<^verbatim>\<open>class PendingScan(NamedTuple)\<close>; \<^verbatim>\<open>time.time()\<close> is read as a real number of seconds.\<close>

record PendingScan =
  library_key :: string
  parent_dir :: string
  timestamp :: real

text \<open>
  A \<^verbatim>\<open>dict\<close> as the list of its items in insertion order: assigning to a key that is
  present replaces the value in place, a new key goes to the end, \<^verbatim>\<open>del\<close> removes the
  key.
\<close>

fun dict_set :: "'k \<Rightarrow> 'v \<Rightarrow> ('k \<times> 'v) list \<Rightarrow> ('k \<times> 'v) list" where
  "dict_set k v [] = [(k, v)]"
| "dict_set k v ((k', v') # items) =
     (if k' = k then (k, v) # items else (k', v') # dict_set k v items)"

definition dict_del :: "'k \<Rightarrow> ('k \<times> 'v) list \<Rightarrow> ('k \<times> 'v) list" where
  "dict_del k items = filter (\<lambda>item. fst item \<noteq> k) items"

text \<open>
  A \<^verbatim>\<open>threading.Thread\<close> is created, then started, and has finished once its target
  has returned; \<^verbatim>\<open>is_alive()\<close> holds in between.
\<close>

datatype thread_state = Unstarted | Running | Finished

text \<open>
  A call \<^verbatim>\<open>self.plex.send_scan_request(int(scan.library_key), scan.parent_dir)\<close>: who made
  it (the background worker, or the flush of \<^verbatim>\<open>shutdown\<close>), the clock when it was made,
  and the pending scan it was made for. Both callers wrap the call in a \<^verbatim>\<open>try\<close> whose
  handler, for \<^verbatim>\<open>Exception\<close>, only logs: whether the call returns or raises (in
  \<^verbatim>\<open>int\<close>, or in Plex), the manager goes on in the same way, so one entry stands for one
  execution of the statement.
\<close>

datatype origin = Background | Flush

record scan_call =
  origin :: origin
  at_time :: real
  scan :: PendingScan

text \<open>
  \<^verbatim>\<open>class BatchScanManager\<close>: its fields, together with the threads it has created
  (\<open>timer_thread\<close> is an index into them) and the calls it has made through
  \<^verbatim>\<open>self.plex\<close>. The lock is not a field: each block under \<^verbatim>\<open>with self.lock\<close> is one
  step of the model.
\<close>

record BatchScanManager =
  delay_seconds :: int
  pending_scans :: "(string \<times> PendingScan) list"
  timer_thread :: "nat option"
  stop_event :: bool
  threads :: "thread_state list"
  scan_calls :: "scan_call list"

text \<open>\<^verbatim>\<open>BatchScanManager.__init__\<close>\<close>

definition BatchScanManager_init :: "int \<Rightarrow> BatchScanManager" where
  "BatchScanManager_init delay =
     \<lparr>delay_seconds = delay, pending_scans = [], timer_thread = None, stop_event = False,
      threads = [], scan_calls = []\<rparr>"

text \<open>\<^verbatim>\<open>scan_key = f"{library_key}:{parent_dir}"\<close>\<close>

definition scan_key :: "string \<Rightarrow> string \<Rightarrow> string" where
  "scan_key lib dir = lib @ '':'' @ dir"

text \<open>The block under the lock in \<^verbatim>\<open>add_scan_request\<close>, with \<open>now\<close> for \<^verbatim>\<open>time.time()\<close>.\<close>

definition store_request :: "real \<Rightarrow> string \<Rightarrow> string \<Rightarrow> BatchScanManager \<Rightarrow> BatchScanManager" where
  "store_request now lib dir m =
     m\<lparr>pending_scans := dict_set (scan_key lib dir)
          \<lparr>library_key = lib, parent_dir = dir, timestamp = now\<rparr> (pending_scans m)\<rparr>"

definition is_alive :: "BatchScanManager \<Rightarrow> nat \<Rightarrow> bool" where
  "is_alive m t \<longleftrightarrow> t < length (threads m) \<and> threads m ! t = Running"

text \<open>\<^verbatim>\<open>self.timer_thread is None or not self.timer_thread.is_alive()\<close>\<close>

definition timer_needed :: "BatchScanManager \<Rightarrow> bool" where
  "timer_needed m = (case timer_thread m of None \<Rightarrow> True | Some t \<Rightarrow> \<not> is_alive m t)"

text \<open>\<^verbatim>\<open>self.timer_thread = threading.Thread(target=self._batch_processor, daemon=True)\<close>\<close>

definition create_timer :: "BatchScanManager \<Rightarrow> BatchScanManager" where
  "create_timer m =
     m\<lparr>timer_thread := Some (length (threads m)), threads := threads m @ [Unstarted]\<rparr>"

text \<open>
  \<^verbatim>\<open>self.timer_thread.start()\<close>: \<open>None\<close> stands for the \<^verbatim>\<open>RuntimeError\<close> of starting a
  thread a second time.
\<close>

definition start_timer :: "BatchScanManager \<Rightarrow> BatchScanManager option" where
  "start_timer m =
     (case timer_thread m of
        None \<Rightarrow> None
      | Some t \<Rightarrow>
          (if t < length (threads m) \<and> threads m ! t = Unstarted
           then Some (m\<lparr>threads := (threads m)[t := Running]\<rparr>)
           else None))"

text \<open>
  \<^verbatim>\<open>add_scan_request\<close>, run from its first statement to its last with nothing in
  between. Were \<^verbatim>\<open>start()\<close> to raise, the call would end there, with the thread
  created and not started.
\<close>

definition add_scan_request :: "real \<Rightarrow> string \<Rightarrow> string \<Rightarrow> BatchScanManager \<Rightarrow> BatchScanManager" where
  "add_scan_request now lib dir m =
     (let m1 = store_request now lib dir m
      in if timer_needed m1
         then (case start_timer (create_timer m1) of
                 Some m2 \<Rightarrow> m2
               | None \<Rightarrow> create_timer m1)
         else m1)"

text \<open>
  The first block under the lock in \<^verbatim>\<open>_batch_processor\<close>: the loop over a copy of the
  items, which moves the scans that are due to \<open>ready\<close> and deletes their keys.
\<close>

fun collect_ready ::
  "int \<Rightarrow> real \<Rightarrow> (string \<times> PendingScan) list \<Rightarrow> PendingScan list \<times> (string \<times> PendingScan) list
     \<Rightarrow> PendingScan list \<times> (string \<times> PendingScan) list" where
  "collect_ready delay now [] (ready, pending) = (ready, pending)"
| "collect_ready delay now ((k, pending_scan) # items) (ready, pending) =
     (if now - timestamp pending_scan \<ge> of_int delay
      then collect_ready delay now items (ready @ [pending_scan], dict_del k pending)
      else collect_ready delay now items (ready, pending))"

text \<open>The loop that makes one call for each scan of a list.\<close>

definition execute_scans ::
  "origin \<Rightarrow> real \<Rightarrow> PendingScan list \<Rightarrow> BatchScanManager \<Rightarrow> BatchScanManager" where
  "execute_scans who now scans m =
     m\<lparr>scan_calls := scan_calls m
          @ map (\<lambda>pending_scan. \<lparr>origin = who, at_time = now, scan = pending_scan\<rparr>) scans\<rparr>"

text \<open>The target of thread \<open>t\<close> returns.\<close>

definition finish :: "nat \<Rightarrow> BatchScanManager \<Rightarrow> BatchScanManager" where
  "finish t m = m\<lparr>threads := (threads m)[t := Finished]\<rparr>"

text \<open>
  One pass of thread \<open>t\<close> through the loop of \<^verbatim>\<open>_batch_processor\<close>, from the test of
  \<^verbatim>\<open>stop_event\<close> to \<^verbatim>\<open>time.sleep(1)\<close>, run with nothing in between and with its calls
  taking no time, \<open>now\<close> being the clock: the thread finishes when the flag is set or when
  nothing is pending after the calls, and otherwise sleeps. The statements of the pass one
  by one, with other threads in between, are the events of a process below;
  \<open>pass_of_statements\<close> shows that their run in a row is this pass.
\<close>

definition batch_processor_pass :: "nat \<Rightarrow> real \<Rightarrow> BatchScanManager \<Rightarrow> BatchScanManager" where
  "batch_processor_pass t now m =
     (if stop_event m then finish t m
      else case collect_ready (delay_seconds m) now (pending_scans m) ([], pending_scans m) of
        (ready, pending) \<Rightarrow>
          (let m1 = execute_scans Background now ready (m\<lparr>pending_scans := pending\<rparr>)
           in if pending_scans m1 = [] then finish t m1 else m1))"



text \<open>
  \<^verbatim>\<open>shutdown\<close>, called at \<open>now\<close>, run with nothing in between while the worker, if one
  is alive, waits at its loop test: the join then sees the worker find the flag set and
  finish. The statements of \<^verbatim>\<open>shutdown\<close> one by one, with a worker in the middle of a
  pass and a join that can time out, are the events of a process below;
  \<open>shutdown_of_statements\<close> shows that their run in a row is this function.
\<close>

definition shutdown :: "real \<Rightarrow> BatchScanManager \<Rightarrow> BatchScanManager" where
  "shutdown now m =
     (let m1 = m\<lparr>stop_event := True\<rparr>;
          remaining_scans = map snd (pending_scans m1);
          m2 = m1\<lparr>pending_scans := []\<rparr>;
          m3 = execute_scans Flush now remaining_scans m2
      in case timer_thread m3 of
           None \<Rightarrow> m3
         | Some t \<Rightarrow> (if is_alive m3 t then batch_processor_pass t now m3 else m3))"

text \<open>
  What can happen to a manager, one thing at a time: a call of \<^verbatim>\<open>add_scan_request\<close>,
  a pass of a worker thread that is alive, a call of \<^verbatim>\<open>shutdown\<close>.
\<close>

datatype action = Add real string string | Pass nat real | Shutdown real

fun perform :: "BatchScanManager \<Rightarrow> action \<Rightarrow> BatchScanManager" where
  "perform m (Add now lib dir) = add_scan_request now lib dir m"
| "perform m (Pass t now) = (if is_alive m t then batch_processor_pass t now m else m)"
| "perform m (Shutdown now) = shutdown now m"

definition run :: "action list \<Rightarrow> BatchScanManager \<Rightarrow> BatchScanManager" where
  "run actions m = foldl perform m actions"





text \<open>
  \<^verbatim>\<open>add_scan_request\<close> statement by statement, for several calling threads. A caller
  is at one of the statements of the method; a step is one caller's next statement, or
  a pass of a worker thread. A step that is not the next thing its thread does changes
  nothing.
\<close>

datatype pc = Idle | At_check | At_create | At_start | Raised

record system =
  manager :: BatchScanManager
  callers :: "nat \<Rightarrow> pc"

datatype step =
  Store nat real string string | Check nat | Create nat | Start nat | Worker nat real

fun small_step :: "system \<Rightarrow> step \<Rightarrow> system" where
  "small_step s (Store c now lib dir) =
     (if callers s c = Idle
      then s\<lparr>manager := store_request now lib dir (manager s),
             callers := (callers s)(c := At_check)\<rparr>
      else s)"
| "small_step s (Check c) =
     (if callers s c = At_check
      then s\<lparr>callers := (callers s)(c := if timer_needed (manager s) then At_create else Idle)\<rparr>
      else s)"
| "small_step s (Create c) =
     (if callers s c = At_create
      then s\<lparr>manager := create_timer (manager s), callers := (callers s)(c := At_start)\<rparr>
      else s)"
| "small_step s (Start c) =
     (if callers s c = At_start
      then (case start_timer (manager s) of
              Some m \<Rightarrow> s\<lparr>manager := m, callers := (callers s)(c := Idle)\<rparr>
            | None \<Rightarrow> s\<lparr>callers := (callers s)(c := Raised)\<rparr>)
      else s)"
| "small_step s (Worker t now) =
     (if is_alive (manager s) t
      then s\<lparr>manager := batch_processor_pass t now (manager s)\<rparr>
      else s)"

definition interleave :: "step list \<Rightarrow> system \<Rightarrow> system" where
  "interleave steps s = foldl small_step s steps"

definition initial_system :: "int \<Rightarrow> system" where
  "initial_system delay = \<lparr>manager = BatchScanManager_init delay, callers = (\<lambda>c. Idle)\<rparr>"

fun by_caller :: "nat \<Rightarrow> step \<Rightarrow> bool" where
  "by_caller c (Store c' now lib dir) \<longleftrightarrow> c' = c"
| "by_caller c (Check c') \<longleftrightarrow> c' = c"
| "by_caller c (Create c') \<longleftrightarrow> c' = c"
| "by_caller c (Start c') \<longleftrightarrow> c' = c"
| "by_caller c (Worker t now) \<longleftrightarrow> True"

definition alive_workers :: "BatchScanManager \<Rightarrow> nat" where
  "alive_workers m = length (filter (\<lambda>st. st = Running) (threads m))"

text \<open>\<^verbatim>\<open>RescanEventHandler.__init__\<close>: the settings, and a manager made with the delay 30.\<close>

record RescanEventHandler =
  settings :: Settings
  batch_manager :: BatchScanManager

definition RescanEventHandler_init :: "Settings \<Rightarrow> RescanEventHandler" where
  "RescanEventHandler_init s = \<lparr>settings = s, batch_manager = BatchScanManager_init 30\<rparr>"

text \<open>
  In a \<^verbatim>\<open>dict\<close> every key occurs once; the manager files each pending scan under the
  key of its own fields.
\<close>

definition well_keyed :: "BatchScanManager \<Rightarrow> bool" where
  "well_keyed m \<longleftrightarrow>
     distinct (map fst (pending_scans m))
     \<and> list_all (\<lambda>item. fst item = scan_key (library_key (snd item)) (parent_dir (snd item)))
         (pending_scans m)"


text \<open>
  What holds while a single thread calls \<^verbatim>\<open>add_scan_request\<close>: a thread that is alive
  is the one \<open>timer_thread\<close> refers to, and once the caller has found that a worker is
  needed, no thread is alive until it has started the one it creates.
\<close>

definition one_caller_inv :: "nat \<Rightarrow> system \<Rightarrow> bool" where
  "one_caller_inv c s \<longleftrightarrow>
     (\<forall>t. is_alive (manager s) t \<longrightarrow> timer_thread (manager s) = Some t)
     \<and> (callers s c = At_create \<longrightarrow> (\<forall>t. \<not> is_alive (manager s) t))
     \<and> (callers s c = At_start \<longrightarrow> (\<forall>t. \<not> is_alive (manager s) t)
           \<and> (\<exists>u. timer_thread (manager s) = Some u \<and> u < length (threads (manager s))
                 \<and> threads (manager s) ! u = Unstarted))"

text \<open>
  Two managers that the debounce theorem speaks of, for a manager \<open>m\<close> with nothing
  pending and no worker alive: \<open>m\<close> after a call for \<open>(lib, dir)\<close> at \<open>ts\<close> has started a
  worker, and that manager after the worker has made its one call, at \<open>e\<close>, and finished.
\<close>

definition waiting :: "BatchScanManager \<Rightarrow> string \<Rightarrow> string \<Rightarrow> real \<Rightarrow> BatchScanManager" where
  "waiting m lib dir ts =
     m\<lparr>pending_scans := [(scan_key lib dir, \<lparr>library_key = lib, parent_dir = dir, timestamp = ts\<rparr>)],
       timer_thread := Some (length (threads m)),
       threads := threads m @ [Running]\<rparr>"


text \<open>
  The manager statement by statement. A worker thread is at the test of its loop
  (\<^verbatim>\<open>while not self.stop_event.is_set()\<close>, where it also is when it has just been started or
  sleeps), or has passed the test and read the clock and is about to take the lock, or
  holds the scans it has collected and not yet sent. The thread that calls \<^verbatim>\<open>shutdown\<close>
  has not called it, or has set the flag and is about to take the lock, or holds the
  scans it took and has not yet sent, or has returned.
\<close>

datatype worker_pc = At_loop_test | At_collect real | At_send "PendingScan list"

datatype shutdown_pc = Not_called | At_lock | At_flush "PendingScan list" | Returned

text \<open>
  A process: the manager, where each worker thread is, where the thread that calls
  \<^verbatim>\<open>add_scan_request\<close> is in it, and where the thread that calls \<^verbatim>\<open>shutdown\<close> is.
\<close>

record process =
  mgr :: BatchScanManager
  worker_at :: "nat \<Rightarrow> worker_pc"
  adder :: pc
  flusher :: shutdown_pc

text \<open>
  An event is the next statement of one thread. For a worker: the loop test with the
  reading of the clock, the block under the lock that collects the due scans, one call
  of the loop over \<^verbatim>\<open>ready_scans\<close> (with the clock at the call), the block under the lock
  that tests for an empty map. For the caller of \<^verbatim>\<open>add_scan_request\<close>: its four
  statements. For \<^verbatim>\<open>shutdown\<close>: setting the flag, the block under the lock, one call of
  the loop over \<^verbatim>\<open>remaining_scans\<close>, and the
  \<^verbatim>\<open>join(timeout=5)\<close>, which returns when no worker is alive or when the time is up
  (\<open>True\<close>) and otherwise goes on waiting. An event that is not the next statement of its
  thread changes nothing.
\<close>

datatype event =
  Worker_test nat real | Worker_collect nat | Worker_send nat real | Worker_check nat
  | Adder_store real string string | Adder_check | Adder_create | Adder_start
  | Shutdown_set | Shutdown_lock | Shutdown_send real | Shutdown_join bool

fun occur :: "process \<Rightarrow> event \<Rightarrow> process" where
  "occur p (Worker_test t now) =
     (if is_alive (mgr p) t \<and> worker_at p t = At_loop_test
      then (if stop_event (mgr p) then p\<lparr>mgr := finish t (mgr p)\<rparr>
            else p\<lparr>worker_at := (worker_at p)(t := At_collect now)\<rparr>)
      else p)"
| "occur p (Worker_collect t) =
     (case worker_at p t of
        At_collect now \<Rightarrow>
          (if is_alive (mgr p) t
           then (case collect_ready (delay_seconds (mgr p)) now (pending_scans (mgr p))
                        ([], pending_scans (mgr p)) of
                   (ready, pending) \<Rightarrow>
                     p\<lparr>mgr := (mgr p)\<lparr>pending_scans := pending\<rparr>,
                       worker_at := (worker_at p)(t := At_send ready)\<rparr>)
           else p)
      | _ \<Rightarrow> p)"
| "occur p (Worker_send t now) =
     (case worker_at p t of
        At_send (pending_scan # ready) \<Rightarrow>
          (if is_alive (mgr p) t
           then p\<lparr>mgr := execute_scans Background now [pending_scan] (mgr p),
                  worker_at := (worker_at p)(t := At_send ready)\<rparr>
           else p)
      | _ \<Rightarrow> p)"
| "occur p (Worker_check t) =
     (case worker_at p t of
        At_send [] \<Rightarrow>
          (if is_alive (mgr p) t
           then (if pending_scans (mgr p) = []
                 then p\<lparr>mgr := finish t (mgr p), worker_at := (worker_at p)(t := At_loop_test)\<rparr>
                 else p\<lparr>worker_at := (worker_at p)(t := At_loop_test)\<rparr>)
           else p)
      | _ \<Rightarrow> p)"
| "occur p (Adder_store now lib dir) =
     (if adder p = Idle
      then p\<lparr>mgr := store_request now lib dir (mgr p), adder := At_check\<rparr>
      else p)"
| "occur p Adder_check =
     (if adder p = At_check
      then p\<lparr>adder := (if timer_needed (mgr p) then At_create else Idle)\<rparr>
      else p)"
| "occur p Adder_create =
     (if adder p = At_create
      then p\<lparr>mgr := create_timer (mgr p), adder := At_start\<rparr>
      else p)"
| "occur p Adder_start =
     (if adder p = At_start
      then (case start_timer (mgr p) of
              Some m \<Rightarrow> p\<lparr>mgr := m, adder := Idle\<rparr>
            | None \<Rightarrow> p\<lparr>adder := Raised\<rparr>)
      else p)"
| "occur p Shutdown_set =
     (if flusher p = Not_called
      then p\<lparr>mgr := (mgr p)\<lparr>stop_event := True\<rparr>, flusher := At_lock\<rparr>
      else p)"
| "occur p Shutdown_lock =
     (if flusher p = At_lock
      then p\<lparr>mgr := (mgr p)\<lparr>pending_scans := []\<rparr>,
             flusher := At_flush (map snd (pending_scans (mgr p)))\<rparr>
      else p)"
| "occur p (Shutdown_send now) =
     (case flusher p of
        At_flush (pending_scan # remaining) \<Rightarrow>
          p\<lparr>mgr := execute_scans Flush now [pending_scan] (mgr p), flusher := At_flush remaining\<rparr>
      | _ \<Rightarrow> p)"
| "occur p (Shutdown_join timed_out) =
     (case flusher p of
        At_flush [] \<Rightarrow> (if timer_needed (mgr p) \<or> timed_out then p\<lparr>flusher := Returned\<rparr> else p)
      | _ \<Rightarrow> p)"

definition exec :: "event list \<Rightarrow> process \<Rightarrow> process" where
  "exec events p = foldl occur p events"









section \<open>Library resolution\<close>

lemma location_matches_iff:
  "location_matches file_path locs \<longleftrightarrow> (\<exists>loc \<in> set locs. startswith file_path loc)"
  by (induction locs) auto

text \<open>
  C3, as stated: the library returned owns the longest matching location. It fails
  when an earlier section has a shorter matching root than a later one.
\<close>

theorem find_library_longest_prefix_counterexample:
  "find_library_by_path [lib_media, lib_movies] ''/media/movies/a.mkv'' = Some lib_media
   \<and> \<not> owns_longest_match [lib_media, lib_movies] ''/media/movies/a.mkv'' lib_media
   \<and> owns_longest_match [lib_media, lib_movies] ''/media/movies/a.mkv'' lib_movies"
  by (simp add: lib_media_def lib_movies_def owns_longest_match_def startswith_def)

text \<open>
  C3, amended: \<^verbatim>\<open>find_library_by_path\<close> returns the first section, in the order of
  \<^verbatim>\<open>library_sections\<close>, that has some location which is a prefix of the path, and
  \<open>None\<close> exactly when no section has one.
\<close>

theorem find_library_first_match:
  "(find_library_by_path sections file_path = Some sec \<longleftrightarrow>
      (\<exists>before after. sections = before @ sec # after
         \<and> (\<exists>loc \<in> set (locations sec). startswith file_path loc)
         \<and> (\<forall>other \<in> set before. \<forall>loc \<in> set (locations other). \<not> startswith file_path loc)))
   \<and> (find_library_by_path sections file_path = None \<longleftrightarrow>
      (\<forall>other \<in> set sections. \<forall>loc \<in> set (locations other). \<not> startswith file_path loc))"
proof (induction sections)
  case Nil
  show ?case by simp
next
  case (Cons s sections)
  show ?case
  proof (cases "location_matches file_path (locations s)")
    case True
    then have m: "\<exists>loc \<in> set (locations s). startswith file_path loc"
      by (simp add: location_matches_iff)
    have "(\<exists>before after. s # sections = before @ sec # after
         \<and> (\<exists>loc \<in> set (locations sec). startswith file_path loc)
         \<and> (\<forall>other \<in> set before. \<forall>loc \<in> set (locations other). \<not> startswith file_path loc))
        \<longleftrightarrow> s = sec"
    proof
      assume "\<exists>before after. s # sections = before @ sec # after
         \<and> (\<exists>loc \<in> set (locations sec). startswith file_path loc)
         \<and> (\<forall>other \<in> set before. \<forall>loc \<in> set (locations other). \<not> startswith file_path loc)"
      then obtain before after where eq: "s # sections = before @ sec # after"
        and none: "\<forall>other \<in> set before. \<forall>loc \<in> set (locations other). \<not> startswith file_path loc"
        by blast
      show "s = sec"
      proof (cases before)
        case Nil
        with eq show ?thesis by simp
      next
        case (Cons b bs)
        with eq have "b = s" by simp
        with Cons none m show ?thesis by auto
      qed
    next
      assume "s = sec"
      with m have "s # sections = [] @ sec # sections
         \<and> (\<exists>loc \<in> set (locations sec). startswith file_path loc)
         \<and> (\<forall>other \<in> set []. \<forall>loc \<in> set (locations other). \<not> startswith file_path loc)"
        by simp
      then show "\<exists>before after. s # sections = before @ sec # after
         \<and> (\<exists>loc \<in> set (locations sec). startswith file_path loc)
         \<and> (\<forall>other \<in> set before. \<forall>loc \<in> set (locations other). \<not> startswith file_path loc)"
        by blast
    qed
    with True m show ?thesis by auto
  next
    case False
    then have nm: "\<forall>loc \<in> set (locations s). \<not> startswith file_path loc"
      by (simp add: location_matches_iff)
    have "(\<exists>before after. s # sections = before @ sec # after
         \<and> (\<exists>loc \<in> set (locations sec). startswith file_path loc)
         \<and> (\<forall>other \<in> set before. \<forall>loc \<in> set (locations other). \<not> startswith file_path loc))
        \<longleftrightarrow> (\<exists>before after. sections = before @ sec # after
         \<and> (\<exists>loc \<in> set (locations sec). startswith file_path loc)
         \<and> (\<forall>other \<in> set before. \<forall>loc \<in> set (locations other). \<not> startswith file_path loc))"
      (is "?L \<longleftrightarrow> ?R")
    proof
      assume ?L
      then obtain before after where eq: "s # sections = before @ sec # after"
        and m: "\<exists>loc \<in> set (locations sec). startswith file_path loc"
        and none: "\<forall>other \<in> set before. \<forall>loc \<in> set (locations other). \<not> startswith file_path loc"
        by blast
      show ?R
      proof (cases before)
        case Nil
        with eq have "s = sec" by simp
        with m nm show ?thesis by blast
      next
        case (Cons b bs)
        with eq have "sections = bs @ sec # after" by simp
        moreover from Cons none
        have "\<forall>other \<in> set bs. \<forall>loc \<in> set (locations other). \<not> startswith file_path loc"
          by simp
        ultimately show ?thesis using m by blast
      qed
    next
      assume ?R
      then obtain before after where eq: "sections = before @ sec # after"
        and m: "\<exists>loc \<in> set (locations sec). startswith file_path loc"
        and none: "\<forall>other \<in> set before. \<forall>loc \<in> set (locations other). \<not> startswith file_path loc"
        by blast
      from eq have "s # sections = (s # before) @ sec # after" by simp
      moreover from none nm
      have "\<forall>other \<in> set (s # before). \<forall>loc \<in> set (locations other). \<not> startswith file_path loc"
        by simp
      ultimately show ?L using m by blast
    qed
    with False nm Cons.IH show ?thesis by simp
  qed
qed

theorem find_library_first_match_witness:
  "find_library_by_path [lib_movies, lib_media] ''/media/movies/a.mkv'' = Some lib_movies
   \<and> find_library_by_path [lib_movies, lib_media] ''/media/b.mkv'' = Some lib_media
   \<and> find_library_by_path [lib_movies, lib_media] ''/other/c.mkv'' = None"
proof -
  have a: "[lib_movies, lib_media] = [] @ lib_movies # [lib_media]
      \<and> (\<exists>loc \<in> set (locations lib_movies). startswith ''/media/movies/a.mkv'' loc)
      \<and> (\<forall>other \<in> set []. \<forall>loc \<in> set (locations other). \<not> startswith ''/media/movies/a.mkv'' loc)"
    by (simp add: lib_movies_def startswith_def)
  have b: "[lib_movies, lib_media] = [lib_movies] @ lib_media # []
      \<and> (\<exists>loc \<in> set (locations lib_media). startswith ''/media/b.mkv'' loc)
      \<and> (\<forall>other \<in> set [lib_movies]. \<forall>loc \<in> set (locations other). \<not> startswith ''/media/b.mkv'' loc)"
    by (simp add: lib_movies_def lib_media_def startswith_def)
  have c: "\<forall>other \<in> set [lib_movies, lib_media]. \<forall>loc \<in> set (locations other).
      \<not> startswith ''/other/c.mkv'' loc"
    by (simp add: lib_movies_def lib_media_def startswith_def)
  from a have "find_library_by_path [lib_movies, lib_media] ''/media/movies/a.mkv'' = Some lib_movies"
    using find_library_first_match [of "[lib_movies, lib_media]" "''/media/movies/a.mkv''" lib_movies]
    by blast
  moreover from b have "find_library_by_path [lib_movies, lib_media] ''/media/b.mkv'' = Some lib_media"
    using find_library_first_match [of "[lib_movies, lib_media]" "''/media/b.mkv''" lib_media]
    by blast
  moreover from c have "find_library_by_path [lib_movies, lib_media] ''/other/c.mkv'' = None"
    using find_library_first_match [of "[lib_movies, lib_media]" "''/other/c.mkv''"]
    by blast
  ultimately show ?thesis by simp
qed


section \<open>The known-file store\<close>

lemma insert_or_ignore_prefix: "prefix rows (insert_or_ignore rows r)"
  by (simp add: insert_or_ignore_def)

lemma executemany_insert_prefix: "prefix rows (executemany_insert rows data)"
  unfolding executemany_insert_def
proof (induction data arbitrary: rows)
  case Nil
  show ?case by simp
next
  case (Cons r data)
  have "prefix rows (insert_or_ignore rows r)" by (rule insert_or_ignore_prefix)
  also have "prefix (insert_or_ignore rows r) (foldl insert_or_ignore (insert_or_ignore rows r) data)"
    by (rule Cons.IH)
  finally show ?case by simp
qed

lemma executemany_insert_distinct:
  "distinct (map snd rows) \<Longrightarrow> distinct (map snd (executemany_insert rows data))"
  unfolding executemany_insert_def
  by (induction data arbitrary: rows) (auto simp: insert_or_ignore_def)

lemma executemany_insert_paths:
  "set (map snd (executemany_insert rows data)) = set (map snd rows) \<union> set (map snd data)"
  unfolding executemany_insert_def
  by (induction data arbitrary: rows) (auto simp: insert_or_ignore_def)

lemma executemany_insert_subset:
  "set (executemany_insert rows data) \<subseteq> set rows \<union> set data"
  unfolding executemany_insert_def
proof (induction data arbitrary: rows)
  case Nil
  show ?case by simp
next
  case (Cons r data)
  have "set (insert_or_ignore rows r) \<subseteq> set rows \<union> {r}"
    by (auto simp: insert_or_ignore_def)
  with Cons.IH [of "insert_or_ignore rows r"] show ?case by auto
qed

lemma stored_rows_insert:
  "connection db \<Longrightarrow> stored_rows db disk = Some rows \<Longrightarrow>
   stored_rows db (insert_plex_library_files data db disk) = Some (executemany_insert rows data)"
  by (auto simp: stored_rows_def insert_plex_library_files_def split: option.splits)

text \<open>
  C6, as stated: a record is added whenever its pair \<open>(library_key, file_path)\<close> is not
  in the store, so that one path can be recorded under two libraries. The table declares
  \<^verbatim>\<open>file_path TEXT NOT NULL UNIQUE\<close>: with \<open>(1, /lib/a.mkv)\<close> stored, inserting
  \<open>(2, /lib/a.mkv)\<close> adds nothing.
\<close>

theorem insert_pair_unique_counterexample:
  "stored_rows example_db example_disk = Some [(1, ''/lib/a.mkv'')]
   \<and> stored_rows example_db (insert_plex_library_files [(2, ''/lib/a.mkv'')] example_db example_disk)
       = Some [(1, ''/lib/a.mkv'')]"
  by (simp add: example_db_def example_disk_def stored_rows_def insert_plex_library_files_def
      executemany_insert_def insert_or_ignore_def)

text \<open>
  C6, amended: records are unique on \<open>file_path\<close> alone. On a connected store whose
  paths are distinct, the bulk insert keeps the existing records as they are and in place,
  appends only records of the data, leaves the paths distinct, and afterwards every path
  of the data is stored; a single record is added exactly when no record with its path
  exists, whatever the library keys.
\<close>

theorem insert_unique_on_file_path:
  assumes "connection db" and "stored_rows db disk = Some rows" and "distinct (map snd rows)"
  shows "(\<exists>added. stored_rows db (insert_plex_library_files data db disk) = Some (rows @ added)
            \<and> set added \<subseteq> set data
            \<and> distinct (map snd (rows @ added))
            \<and> set (map snd (rows @ added)) = set (map snd rows) \<union> set (map snd data))
         \<and> stored_rows db (insert_plex_library_files [(k, p)] db disk)
            = Some (if p \<in> set (map snd rows) then rows else rows @ [(k, p)])"
proof -
  let ?new = "executemany_insert rows data"
  have st: "stored_rows db (insert_plex_library_files data db disk) = Some ?new"
    using assms(1,2) by (rule stored_rows_insert)
  obtain added where new: "?new = rows @ added"
    using executemany_insert_prefix [of rows data] by (auto simp: prefix_def)
  have d: "distinct (map snd (rows @ added))"
    using executemany_insert_distinct [OF assms(3), of data] new by simp
  have p: "set (map snd (rows @ added)) = set (map snd rows) \<union> set (map snd data)"
    using executemany_insert_paths [of rows data] new by simp
  have "set added \<subseteq> set data"
  proof
    fix r assume r: "r \<in> set added"
    then have "r \<in> set rows \<union> set data"
      using executemany_insert_subset [of rows data] new by auto
    moreover have "r \<notin> set rows"
    proof
      assume "r \<in> set rows"
      then have "snd r \<in> set (map snd rows)" by simp
      moreover from r have "snd r \<in> set (map snd added)" by simp
      ultimately show False using d by auto
    qed
    ultimately show "r \<in> set data" by simp
  qed
  with st new d p have first: "\<exists>added. stored_rows db (insert_plex_library_files data db disk) = Some (rows @ added)
            \<and> set added \<subseteq> set data
            \<and> distinct (map snd (rows @ added))
            \<and> set (map snd (rows @ added)) = set (map snd rows) \<union> set (map snd data)"
    by auto
  have "stored_rows db (insert_plex_library_files [(k, p)] db disk)
            = Some (if p \<in> set (map snd rows) then rows else rows @ [(k, p)])"
    using stored_rows_insert [OF assms(1,2), of "[(k, p)]"]
    by (simp add: executemany_insert_def insert_or_ignore_def)
  with first show ?thesis by blast
qed

theorem insert_unique_on_file_path_witness:
  "(\<exists>added. stored_rows example_db
        (insert_plex_library_files [(2, ''/lib/a.mkv''), (1, ''/lib/b.mkv'')] example_db example_disk)
          = Some ([(1, ''/lib/a.mkv'')] @ added)
      \<and> set added \<subseteq> {(2, ''/lib/a.mkv''), (1, ''/lib/b.mkv'')}
      \<and> distinct (map snd ([(1::int, ''/lib/a.mkv'')] @ added)))
   \<and> stored_rows example_db (insert_plex_library_files [(1, ''/lib/b.mkv'')] example_db example_disk)
       = Some [(1, ''/lib/a.mkv''), (1, ''/lib/b.mkv'')]"
proof -
  have c: "connection example_db" by (simp add: example_db_def)
  have s: "stored_rows example_db example_disk = Some [(1, ''/lib/a.mkv'')]"
    by (simp add: example_db_def example_disk_def stored_rows_def)
  have d: "distinct (map snd [(1::int, ''/lib/a.mkv'')])" by simp
  show ?thesis
    using insert_unique_on_file_path [OF c s d,
        of "[(2, ''/lib/a.mkv''), (1, ''/lib/b.mkv'')]" 1 "''/lib/b.mkv''"]
    by auto
qed

text \<open>
  C9: when a database file exists at \<open>db_path\<close>, \<^verbatim>\<open>connect\<close> establishes a connection
  exactly when neither \<^verbatim>\<open>os.remove\<close> nor SQLite raises, and the database it is then
  connected to holds the empty table \<^verbatim>\<open>plex_library_files\<close> and nothing of the old
  file.
\<close>

theorem connect_discards_existing_store:
  assumes "disk (db_path db) = Some old"
  shows "(connection (fst (connect os db disk)) \<longrightarrow>
            snd (connect os db disk) (db_path db) = Some [plex_library_files \<mapsto> []]
            \<and> stored_rows (fst (connect os db disk)) (snd (connect os db disk)) = Some [])
         \<and> (connection (fst (connect os db disk)) \<longleftrightarrow> \<not> remove_raises os \<and> sqlite os = Sqlite_ok)"
  using assms
  by (cases "sqlite os")
     (auto simp: connect_def connect_sqlite_def open_database_def create_table_if_not_exists_def
        stored_rows_def)

theorem connect_discards_existing_store_witness:
  "connection (fst (connect \<lparr>remove_raises = False, sqlite = Sqlite_ok\<rparr> example_db example_disk))
   \<and> stored_rows (fst (connect \<lparr>remove_raises = False, sqlite = Sqlite_ok\<rparr> example_db example_disk))
        (snd (connect \<lparr>remove_raises = False, sqlite = Sqlite_ok\<rparr> example_db example_disk))
      = Some ([] :: int table_rows)"
proof -
  have e: "example_disk (db_path example_db) = Some [plex_library_files \<mapsto> [(1, ''/lib/a.mkv'')]]"
    by (simp add: example_db_def example_disk_def)
  show ?thesis
    using e connect_discards_existing_store [of example_disk example_db
        "[plex_library_files \<mapsto> [(1, ''/lib/a.mkv'')]]" "\<lparr>remove_raises = False, sqlite = Sqlite_ok\<rparr>"]
    by simp
qed


section \<open>The startup reconciliation\<close>

lemma for_each_append:
  "for_each body (xs @ ys) s =
     (case for_each body xs s of (s', Some e) \<Rightarrow> (s', Some e) | (s', None) \<Rightarrow> for_each body ys s')"
  by (induction xs arbitrary: s) (auto split: prod.splits option.splits)

lemma for_each_map: "for_each (\<lambda>x. body (f x)) xs s = for_each body (map f xs) s"
  by (induction xs arbitrary: s) (auto split: prod.splits option.splits)

lemma for_each_concat:
  "for_each (\<lambda>x. for_each body (g x)) xs s = for_each body (concat (map g xs)) s"
  by (induction xs arbitrary: s) (auto simp: for_each_append split: prod.splits option.splits)

lemma scan_directory_flat:
  "scan_directory env px db disk entry =
     for_each (scan_file env px db disk)
       (case entry of (walk_root, dirs, files) \<Rightarrow> map (join_path env walk_root) files)"
  by (cases entry) (simp add: scan_directory_def for_each_map fun_eq_iff)

lemma scan_library_path_flat:
  "scan_library_path env px db disk library_path =
     for_each (scan_file env px db disk)
       (if path_exists env library_path then walked_files env library_path else [])"
proof -
  have "for_each (scan_directory env px db disk) (os_walk env library_path) s
      = for_each (scan_file env px db disk) (walked_files env library_path) s" for s
    unfolding walked_files_def for_each_concat [symmetric]
    by (simp add: scan_directory_flat [abs_def] case_prod_unfold)
  then show ?thesis
    by (auto simp: scan_library_path_def fun_eq_iff)
qed

lemma concat_map_if_filter:
  "concat (map (\<lambda>x. if P x then f x else []) xs) = concat (map f (filter P xs))"
  by (induction xs) auto

lemma full_scan_flat:
  "server px \<Longrightarrow>
   full_scan env px db disk = for_each (scan_file env px db disk) (enumerated_files env px) []"
  unfolding full_scan_def enumerated_files_def concat_map_if_filter [symmetric]
    for_each_concat [symmetric]
  by (simp add: scan_library_path_flat [abs_def])


lemma scan_file_sent:
  "scan_file env px db disk p sent = (sent', x) \<Longrightarrow>
   sent' = sent \<or> (\<exists>r. sent' = sent @ [r] \<and> request_path r = p
      \<and> (\<exists>library. find_library_by_path (library_sections px) p = Some library
            \<and> request_key r = key library))"
  by (auto simp: scan_file_def send_scan_request_def Let_def
      split: if_splits option.splits sum.splits bool.splits update_outcome.splits)

lemma for_each_scan_file_paths:
  "for_each (scan_file env px db disk) ps sent = (sent', x) \<Longrightarrow>
   set (map request_path sent') \<subseteq> set (map request_path sent) \<union> set ps"
proof (induction ps arbitrary: sent)
  case Nil
  then show ?case by simp
next
  case (Cons p ps)
  obtain s1 x1 where sf: "scan_file env px db disk p sent = (s1, x1)"
    by (cases "scan_file env px db disk p sent")
  from scan_file_sent [OF sf]
  have s1: "set (map request_path s1) \<subseteq> set (map request_path sent) \<union> {p}" by auto
  show ?case
  proof (cases x1)
    case None
    with Cons.prems sf have "for_each (scan_file env px db disk) ps s1 = (sent', x)" by simp
    from Cons.IH [OF this] s1 show ?thesis by auto
  next
    case (Some e)
    with Cons.prems sf have "sent' = s1" by simp
    with s1 show ?thesis by auto
  qed
qed

lemma scan_file_completes:
  assumes "server px" and "cursor db" and "stored_rows db disk = Some rows"
    and "scan_file env px db disk p sent = (sent', None)"
  shows "map request_path sent' = map request_path sent @
           filter (\<lambda>p. is_scan_candidate env px p
              \<and> (\<exists>library. find_library_by_path (library_sections px) p = Some library
                    \<and> (key library, p) \<notin> set rows)) [p]"
  using assms
  by (auto simp: scan_file_def send_scan_request_def is_cached_def Let_def
      split: if_splits option.splits sum.splits bool.splits update_outcome.splits)

lemma for_each_scan_file_completes:
  assumes "server px" and "cursor db" and "stored_rows db disk = Some rows"
  shows "for_each (scan_file env px db disk) ps sent = (sent', None) \<Longrightarrow>
     map request_path sent' = map request_path sent @
           filter (\<lambda>p. is_scan_candidate env px p
              \<and> (\<exists>library. find_library_by_path (library_sections px) p = Some library
                    \<and> (key library, p) \<notin> set rows)) ps"
proof (induction ps arbitrary: sent)
  case Nil
  then show ?case by simp
next
  case (Cons p ps)
  obtain s1 x1 where sf: "scan_file env px db disk p sent = (s1, x1)"
    by (cases "scan_file env px db disk p sent")
  from Cons.prems sf have x1: "x1 = None" by (cases x1) auto
  with Cons.prems sf have rest: "for_each (scan_file env px db disk) ps s1 = (sent', None)" by simp
  from scan_file_completes [OF assms sf [unfolded x1]] Cons.IH [OF rest]
  show ?case by simp
qed

lemma for_each_scan_file_keys:
  "for_each (scan_file env px db disk) ps sent = (sent', x) \<Longrightarrow>
   \<forall>r \<in> set sent'. r \<in> set sent \<or>
      (\<exists>library. find_library_by_path (library_sections px) (request_path r) = Some library
            \<and> request_key r = key library)"
proof (induction ps arbitrary: sent)
  case Nil
  then show ?case by simp
next
  case (Cons p ps)
  obtain s1 x1 where sf: "scan_file env px db disk p sent = (s1, x1)"
    by (cases "scan_file env px db disk p sent")
  from scan_file_sent [OF sf]
  have s1: "\<forall>r \<in> set s1. r \<in> set sent \<or>
      (\<exists>library. find_library_by_path (library_sections px) (request_path r) = Some library
            \<and> request_key r = key library)" by auto
  show ?case
  proof (cases x1)
    case None
    with Cons.prems sf have "for_each (scan_file env px db disk) ps s1 = (sent', x)" by simp
    from Cons.IH [OF this] s1 show ?thesis by blast
  next
    case (Some e)
    with Cons.prems sf have "sent' = s1" by simp
    with s1 show ?thesis by simp
  qed
qed

text \<open>
  C2, as stated: in every run, each file that passes the tests and is unknown gets
  exactly one request. A run that an exception ends leaves the files after it without a
  request: in \<open>failing_env\<close> the unknown media file \<open>/lib/a/zed.mkv\<close> gets none. And a
  file that the walk comes to twice is requested twice: with the root \<open>/lib\<close> configured
  twice, both unknown files are.
\<close>

theorem full_scan_every_run_counterexample:
  "stored_rows example_db example_store = Some [(''1'', ''/lib/a/movie.mkv'')]
   \<and> enumerated_files failing_env example_plex
       = [''/lib/a/movie.mkv'', ''/lib/a/new.mkv'', ''/lib/a/zed.mkv'']
   \<and> is_scan_candidate failing_env example_plex ''/lib/a/zed.mkv''
   \<and> map key (case find_library_by_path (library_sections example_plex) ''/lib/a/zed.mkv'' of
         None \<Rightarrow> [] | Some library \<Rightarrow> [library]) = [''1'']
   \<and> map request_path (fst (full_scan failing_env example_plex example_db example_store))
       = [''/lib/a/new.mkv'']
   \<and> map request_path (fst (full_scan example_env repeated_roots_plex example_db example_store))
       = [''/lib/a/new.mkv'', ''/lib/a/zed.mkv'', ''/lib/a/new.mkv'', ''/lib/a/zed.mkv'']"
  by (simp add: enumerated_files_def walked_files_def
      full_scan_def scan_library_path_def scan_directory_def scan_file_def
      is_scan_candidate_def send_scan_request_def is_cached_def stored_rows_def startswith_def
      posix_suffix_def posix_name_def Let_def failing_env_def repeated_roots_plex_def
      example_env_def example_plex_def example_db_def example_store_def plex_library_files_def)

text \<open>
  C2, amended: when the server is connected and the store can be read, a run of
  \<^verbatim>\<open>full_scan\<close> that no exception ends makes its requests for exactly the files of the
  walk over the existing roots that pass the media test (suffix in the configured
  extensions, name not starting with a dot), resolve to a library, and are not in the
  store under that library's key: one request each time the walk comes to such a file,
  in walk order, under the key of the resolved library, and none for any other file.
  When the walk comes to no file twice, no file is requested twice.
\<close>

theorem full_scan_requests_unknown_media_files:
  assumes "server px" and "cursor db" and "stored_rows db disk = Some rows"
    and "full_scan env px db disk = (sent, None)"
  shows "map request_path sent =
           filter (\<lambda>p. is_scan_candidate env px p
              \<and> (\<exists>library. find_library_by_path (library_sections px) p = Some library
                    \<and> (key library, p) \<notin> set rows)) (enumerated_files env px)
         \<and> (\<forall>r \<in> set sent. \<exists>library.
               find_library_by_path (library_sections px) (request_path r) = Some library
               \<and> request_key r = key library)
         \<and> (distinct (enumerated_files env px) \<longrightarrow> distinct (map request_path sent))"
proof -
  from assms(1,4)
  have run: "for_each (scan_file env px db disk) (enumerated_files env px) [] = (sent, None)"
    by (simp add: full_scan_flat)
  from for_each_scan_file_completes [OF assms(1-3) run]
  have paths: "map request_path sent =
           filter (\<lambda>p. is_scan_candidate env px p
              \<and> (\<exists>library. find_library_by_path (library_sections px) p = Some library
                    \<and> (key library, p) \<notin> set rows)) (enumerated_files env px)"
    by simp
  from for_each_scan_file_keys [OF run]
  have keys: "\<forall>r \<in> set sent. \<exists>library.
               find_library_by_path (library_sections px) (request_path r) = Some library
               \<and> request_key r = key library"
    by simp
  from paths have "distinct (enumerated_files env px) \<longrightarrow> distinct (map request_path sent)"
    by simp
  with paths keys show ?thesis by blast
qed

lemma example_enumerated:
  "enumerated_files example_env example_plex
     = [''/lib/a/movie.mkv'', ''/lib/a/new.mkv'', ''/lib/a/zed.mkv'']"
  by (simp add: enumerated_files_def walked_files_def example_env_def example_plex_def)

lemma example_full_scan:
  "full_scan example_env example_plex example_db example_store
     = ([\<lparr>request_key = ''1'', request_path = ''/lib/a/new.mkv'', request_outcome = Update_returns\<rparr>,
         \<lparr>request_key = ''1'', request_path = ''/lib/a/zed.mkv'', request_outcome = Update_returns\<rparr>],
        None)"
  by (simp add: full_scan_def scan_library_path_def scan_directory_def scan_file_def
      is_scan_candidate_def send_scan_request_def is_cached_def stored_rows_def startswith_def
      posix_suffix_def posix_name_def Let_def
      example_env_def example_plex_def example_db_def example_store_def plex_library_files_def)


theorem full_scan_requests_unknown_media_files_witness:
  "map request_path (fst (full_scan example_env example_plex example_db example_store))
     = [''/lib/a/new.mkv'', ''/lib/a/zed.mkv'']
   \<and> map request_key (fst (full_scan example_env example_plex example_db example_store))
       = [''1'', ''1'']
   \<and> distinct (map request_path (fst (full_scan example_env example_plex example_db example_store)))"
proof -
  have a: "server example_plex" by (simp add: example_plex_def)
  have b: "cursor example_db" by (simp add: example_db_def)
  have c: "stored_rows example_db example_store = Some [(''1'', ''/lib/a/movie.mkv'')]"
    by (simp add: stored_rows_def example_db_def example_store_def)
  have d: "full_scan example_env example_plex example_db example_store
      = (fst (full_scan example_env example_plex example_db example_store), None)"
    by (simp add: example_full_scan)
  have e: "find_library_by_path (library_sections example_plex) p = Some library
      \<Longrightarrow> key library = ''1''" for p library
    by (auto simp: example_plex_def split: if_splits)
  from full_scan_requests_unknown_media_files [OF a b c d] e
  show ?thesis
    by (auto simp: example_enumerated example_full_scan)
qed

text \<open>
  C5, as stated: an exception raised while one file is processed does not keep the
  remaining files from being checked and scanned. The \<^verbatim>\<open>try\<close> of \<^verbatim>\<open>full_scan\<close> is
  around the whole walk: when the request for \<open>/lib/a/new.mkv\<close> raises, the file
  \<open>/lib/a/zed.mkv\<close>, which passes every test and is unknown, gets no request.
\<close>

theorem full_scan_isolation_counterexample:
  "enumerated_files failing_env example_plex
     = [''/lib/a/movie.mkv'', ''/lib/a/new.mkv'', ''/lib/a/zed.mkv'']
   \<and> is_scan_candidate failing_env example_plex ''/lib/a/zed.mkv''
   \<and> find_library_by_path (library_sections example_plex) ''/lib/a/zed.mkv''
       = Some \<lparr>title = ''Movies'', key = ''1'', locations = [''/lib''],
           library_type = ''movie'', agent = ''Unknown'', scanner = ''Unknown''\<rparr>
   \<and> is_cached example_db example_store ''1'' ''/lib/a/zed.mkv'' = Inr False
   \<and> full_scan failing_env example_plex example_db example_store
       = ([\<lparr>request_key = ''1'', request_path = ''/lib/a/new.mkv'',
            request_outcome = Update_raises_other\<rparr>], Some Unexpected_error)"
  by (simp add: enumerated_files_def walked_files_def
      full_scan_def scan_library_path_def scan_directory_def scan_file_def
      is_scan_candidate_def send_scan_request_def is_cached_def stored_rows_def startswith_def
      posix_suffix_def posix_name_def Let_def failing_env_def
      example_env_def example_plex_def example_db_def example_store_def plex_library_files_def)

text \<open>
  C5, amended: an exception that leaves the processing of a file (from the known-file
  lookup, or from a scan request that raises something other than
  \<^verbatim>\<open>PlexApiException\<close>) ends the walk there: \<^verbatim>\<open>full_scan\<close> returns with the requests
  made up to and including that file and makes none for the files after it. Only a
  \<^verbatim>\<open>PlexApiException\<close> raised by a scan request is caught for that request alone; the
  request returns normally and the walk goes on.
\<close>

theorem full_scan_stops_at_exception:
  assumes "server px"
    and "enumerated_files env px = before @ p # rest"
    and "for_each (scan_file env px db disk) before [] = (sent, None)"
    and "scan_file env px db disk p sent = (sent', Some e)"
  shows "full_scan env px db disk = (sent', Some e)
         \<and> set (map request_path sent') \<subseteq> set (before @ [p])
         \<and> (\<forall>k q s. section_update env k q = Update_raises_PlexApiException \<longrightarrow>
               send_scan_request env px k q s
                 = (s @ [\<lparr>request_key = k, request_path = q,
                           request_outcome = Update_raises_PlexApiException\<rparr>], None))"
proof -
  have run: "for_each (scan_file env px db disk) (before @ p # rest) [] = (sent', Some e)"
    using assms(3,4) by (simp add: for_each_append)
  then have full: "full_scan env px db disk = (sent', Some e)"
    using assms(1,2) by (simp add: full_scan_flat)
  have "for_each (scan_file env px db disk) (before @ [p]) [] = (sent', Some e)"
    using assms(3,4) by (simp add: for_each_append)
  from for_each_scan_file_paths [OF this]
  have paths: "set (map request_path sent') \<subseteq> set (before @ [p])" by simp
  have "\<forall>k q s. section_update env k q = Update_raises_PlexApiException \<longrightarrow>
               send_scan_request env px k q s
                 = (s @ [\<lparr>request_key = k, request_path = q,
                           request_outcome = Update_raises_PlexApiException\<rparr>], None)"
    using assms(1) by (simp add: send_scan_request_def)
  with full paths show ?thesis by blast
qed

theorem full_scan_stops_at_exception_witness:
  "full_scan failing_env example_plex example_db example_store
     = ([\<lparr>request_key = ''1'', request_path = ''/lib/a/new.mkv'',
          request_outcome = Update_raises_other\<rparr>], Some Unexpected_error)
   \<and> set (map request_path [\<lparr>request_key = ''1'', request_path = ''/lib/a/new.mkv'',
          request_outcome = Update_raises_other\<rparr>])
      \<subseteq> set ([''/lib/a/movie.mkv''] @ [''/lib/a/new.mkv''])"
proof -
  have a: "server example_plex" by (simp add: example_plex_def)
  have b: "enumerated_files failing_env example_plex
      = [''/lib/a/movie.mkv''] @ ''/lib/a/new.mkv'' # [''/lib/a/zed.mkv'']"
    by (simp add: enumerated_files_def walked_files_def failing_env_def example_env_def
        example_plex_def)
  have c: "for_each (scan_file failing_env example_plex example_db example_store)
      [''/lib/a/movie.mkv''] [] = ([], None)"
    by (simp add: scan_file_def is_scan_candidate_def is_cached_def stored_rows_def
        startswith_def posix_suffix_def posix_name_def Let_def failing_env_def
        example_env_def example_plex_def example_db_def example_store_def plex_library_files_def)
  have d: "scan_file failing_env example_plex example_db example_store ''/lib/a/new.mkv'' []
      = ([\<lparr>request_key = ''1'', request_path = ''/lib/a/new.mkv'',
          request_outcome = Update_raises_other\<rparr>], Some Unexpected_error)"
    by (simp add: scan_file_def is_scan_candidate_def is_cached_def stored_rows_def
        send_scan_request_def
        startswith_def posix_suffix_def posix_name_def Let_def failing_env_def
        example_env_def example_plex_def example_db_def example_store_def plex_library_files_def)
  from full_scan_stops_at_exception [OF a b c d] show ?thesis by blast
qed


section \<open>The delay of the coalescer\<close>

text \<open>
  C7, as stated: the delay of the coalescer is the \<open>delay_seconds\<close> of the
  configuration. \<^verbatim>\<open>Settings\<close> declares no such field and ignores the key: a settings
  file that gives \<open>delay_seconds\<close> as 5 loads as the defaults, and the handler's manager
  does not wait 5 seconds.
\<close>

theorem delay_from_configuration_counterexample:
  "load_or_create_settings (Some (JObject [(''delay_seconds'', JNumber 5)])) = Inr default_settings
   \<and> delay_seconds (batch_manager (RescanEventHandler_init default_settings)) \<noteq> 5"
  by (simp add: load_or_create_settings_def json_field_def validate_field_def
      RescanEventHandler_init_def BatchScanManager_init_def default_settings_def)

text \<open>
  C7, amended: for every settings object, the manager that \<^verbatim>\<open>RescanEventHandler\<close>
  creates has the delay 30: a constant of the program, which no setting changes.
\<close>

theorem delay_is_constant:
  "delay_seconds (batch_manager (RescanEventHandler_init s)) = 30"
  by (simp add: RescanEventHandler_init_def BatchScanManager_init_def)

section \<open>Shutdown and the stop flag\<close>

lemma pass_stopped: "stop_event m \<Longrightarrow> batch_processor_pass t now m = finish t m"
  by (simp add: batch_processor_pass_def)

lemma start_created_timer:
  "start_timer (create_timer m)
     = Some (m\<lparr>timer_thread := Some (length (threads m)), threads := threads m @ [Running]\<rparr>)"
  by (simp add: start_timer_def create_timer_def)

lemma add_scan_request_eq:
  "add_scan_request now lib dir m =
     (let m1 = store_request now lib dir m
      in if timer_needed m1
         then m1\<lparr>timer_thread := Some (length (threads m1)), threads := threads m1 @ [Running]\<rparr>
         else m1)"
  by (simp add: add_scan_request_def start_created_timer Let_def)

lemma shutdown_eq:
  "shutdown now m =
     (let m3 = m\<lparr>stop_event := True, pending_scans := [],
                 scan_calls := scan_calls m
                   @ map (\<lambda>item. \<lparr>origin = Flush, at_time = now, scan = snd item\<rparr>) (pending_scans m)\<rparr>
      in case timer_thread m of
           None \<Rightarrow> m3
         | Some t \<Rightarrow> (if is_alive m t then finish t m3 else m3))"
  by (auto simp: shutdown_def execute_scans_def Let_def pass_stopped is_alive_def comp_def
      split: option.splits)





lemma dict_set_keys: "fst ` set (dict_set k v items) = insert k (fst ` set items)"
proof (induction items)
  case Nil
  show ?case by simp
next
  case (Cons item items)
  obtain k' v' where item: "item = (k', v')" by (cases item)
  show ?case
  proof (cases "k' = k")
    case True
    with item show ?thesis by simp
  next
    case False
    with item Cons.IH show ?thesis by (simp add: insert_commute)
  qed
qed

lemma dict_set_distinct: "distinct (map fst items) \<Longrightarrow> distinct (map fst (dict_set k v items))"
proof (induction items)
  case Nil
  show ?case by simp
next
  case (Cons item items)
  obtain k' v' where item: "item = (k', v')" by (cases item)
  show ?case
  proof (cases "k' = k")
    case True
    with item Cons.prems show ?thesis by simp
  next
    case False
    with item Cons show ?thesis by (simp add: dict_set_keys)
  qed
qed

lemma dict_set_all: "P (k, v) \<Longrightarrow> list_all P items \<Longrightarrow> list_all P (dict_set k v items)"
  by (induction items) auto


lemma collect_ready_keeps:
  "distinct (map fst pending) \<and> list_all P pending \<Longrightarrow>
   distinct (map fst (snd (collect_ready delay now items (ready, pending))))
   \<and> list_all P (snd (collect_ready delay now items (ready, pending)))"
proof (induction items arbitrary: ready pending)
  case Nil
  then show ?case by simp
next
  case (Cons item items)
  obtain k ps where item: "item = (k, ps)" by (cases item)
  have "distinct (map fst (dict_del k pending)) \<and> list_all P (dict_del k pending)"
    using Cons.prems by (simp add: dict_del_def distinct_map_filter list_all_iff)
  with Cons item show ?case by simp
qed

lemma well_keyed_perform: "well_keyed m \<Longrightarrow> well_keyed (perform m a)"
proof (cases a)
  case (Add now lib dir)
  assume "well_keyed m"
  then show ?thesis
    by (simp add: Add well_keyed_def add_scan_request_eq store_request_def Let_def
        dict_set_distinct dict_set_all)
next
  case (Pass t now)
  assume wk: "well_keyed m"
  obtain ready pending where c:
    "collect_ready (delay_seconds m) now (pending_scans m) ([], pending_scans m) = (ready, pending)"
    by (cases "collect_ready (delay_seconds m) now (pending_scans m) ([], pending_scans m)")
  from wk collect_ready_keeps [of "pending_scans m"
      "\<lambda>item. fst item = scan_key (library_key (snd item)) (parent_dir (snd item))"
      "delay_seconds m" now "pending_scans m" "[]"] c
  have "distinct (map fst pending)
      \<and> list_all (\<lambda>item. fst item = scan_key (library_key (snd item)) (parent_dir (snd item))) pending"
    by (simp add: well_keyed_def)
  with wk c show ?thesis
    by (simp add: Pass well_keyed_def batch_processor_pass_def execute_scans_def finish_def Let_def)
next
  case (Shutdown now)
  show ?thesis
    by (simp add: Shutdown well_keyed_def shutdown_eq finish_def Let_def split: option.splits)
qed

lemma well_keyed_run: "well_keyed m \<Longrightarrow> well_keyed (run actions m)"
  unfolding run_def
  by (induction actions arbitrary: m) (simp_all add: well_keyed_perform)







section \<open>Shutdown, statement by statement\<close>

lemma exec_Nil: "exec [] p = p"
  by (simp add: exec_def)

lemma exec_Cons: "exec (e # events) p = exec events (occur p e)"
  by (simp add: exec_def)

lemma exec_append: "exec (xs @ ys) p = exec ys (exec xs p)"
  by (simp add: exec_def)
























lemma sends_run:
  "is_alive (mgr q) t \<Longrightarrow> worker_at q t = At_send scans \<Longrightarrow>
   mgr (exec (map (\<lambda>pending_scan. Worker_send t now) scans) q)
     = execute_scans Background now scans (mgr q)
   \<and> worker_at (exec (map (\<lambda>pending_scan. Worker_send t now) scans) q) t = At_send []"
proof (induction scans arbitrary: q)
  case Nil
  then show ?case by (simp add: exec_Nil execute_scans_def)
next
  case (Cons x scans)
  let ?q = "occur q (Worker_send t now)"
  from Cons.prems have m: "mgr ?q = execute_scans Background now [x] (mgr q)"
    and w: "worker_at ?q t = At_send scans"
    by simp_all
  from Cons.prems m have a: "is_alive (mgr ?q) t"
    by (simp add: is_alive_def execute_scans_def)
  from Cons.IH [OF a w] m show ?case
    by (simp add: exec_Cons execute_scans_def)
qed

lemma idle_worker_events:
  "worker_at q t = At_loop_test \<Longrightarrow>
   exec (Worker_collect t # map (\<lambda>pending_scan. Worker_send t now) scans @ [Worker_check t]) q = q"
proof -
  assume w: "worker_at q t = At_loop_test"
  have "exec (map (\<lambda>pending_scan. Worker_send t now) scans) q = q"
    using w by (induction scans) (simp_all add: exec_Nil exec_Cons)
  with w show ?thesis by (simp add: exec_Cons exec_append exec_Nil)
qed

lemma pass_of_statements:
  assumes "is_alive (mgr p) t" and "worker_at p t = At_loop_test"
  shows "mgr (exec (Worker_test t now # Worker_collect t
            # map (\<lambda>pending_scan. Worker_send t now)
                (fst (collect_ready (delay_seconds (mgr p)) now (pending_scans (mgr p))
                        ([], pending_scans (mgr p))))
            @ [Worker_check t]) p)
         = batch_processor_pass t now (mgr p)"
proof (cases "stop_event (mgr p)")
  case True
  let ?q = "occur p (Worker_test t now)"
  let ?rest = "Worker_collect t
            # map (\<lambda>pending_scan. Worker_send t now)
                (fst (collect_ready (delay_seconds (mgr p)) now (pending_scans (mgr p))
                        ([], pending_scans (mgr p))))
            @ [Worker_check t]"
  from True assms have q: "?q = p\<lparr>mgr := finish t (mgr p)\<rparr>" by simp
  then have "worker_at ?q t = At_loop_test" using assms by simp
  then have "exec ?rest ?q = ?q" by (rule idle_worker_events)
  then have "exec (Worker_test t now # ?rest) p = ?q" by (simp only: exec_Cons)
  then have "mgr (exec (Worker_test t now # ?rest) p) = finish t (mgr p)"
    by (simp only: q) simp
  with True show ?thesis by (simp only: batch_processor_pass_def if_True)
next
  case False
  obtain ready pending where c:
    "collect_ready (delay_seconds (mgr p)) now (pending_scans (mgr p)) ([], pending_scans (mgr p))
       = (ready, pending)"
    by (cases "collect_ready (delay_seconds (mgr p)) now (pending_scans (mgr p))
          ([], pending_scans (mgr p))")
  let ?q = "occur (occur p (Worker_test t now)) (Worker_collect t)"
  from False assms c have m: "mgr ?q = (mgr p)\<lparr>pending_scans := pending\<rparr>"
    and w: "worker_at ?q t = At_send ready"
    by simp_all
  from assms m have a: "is_alive (mgr ?q) t" by (simp add: is_alive_def)
  let ?r = "exec (map (\<lambda>pending_scan. Worker_send t now) ready) ?q"
  from sends_run [OF a w, of now] m
  have mr: "mgr ?r = execute_scans Background now ready ((mgr p)\<lparr>pending_scans := pending\<rparr>)"
    and wr: "worker_at ?r t = At_send []"
    by simp_all
  from assms have ar: "is_alive (mgr ?r) t"
    unfolding mr by (simp add: is_alive_def execute_scans_def)
  have "mgr (occur ?r (Worker_check t))
      = (if pending_scans (mgr ?r) = [] then finish t (mgr ?r) else mgr ?r)"
    using wr ar by simp
  with mr False c show ?thesis
    by (simp add: exec_Cons exec_append exec_Nil batch_processor_pass_def Let_def
        del: occur.simps)
qed

lemma flush_run:
  "flusher q = At_flush scans \<Longrightarrow>
   mgr (exec (map (\<lambda>item. Shutdown_send now) scans) q) = execute_scans Flush now scans (mgr q)
   \<and> flusher (exec (map (\<lambda>item. Shutdown_send now) scans) q) = At_flush []
   \<and> worker_at (exec (map (\<lambda>item. Shutdown_send now) scans) q) = worker_at q"
proof (induction scans arbitrary: q)
  case Nil
  then show ?case by (simp add: exec_Nil execute_scans_def)
next
  case (Cons x scans)
  let ?q = "occur q (Shutdown_send now)"
  from Cons.prems have m: "mgr ?q = execute_scans Flush now [x] (mgr q)"
    and f: "flusher ?q = At_flush scans" and w: "worker_at ?q = worker_at q"
    by simp_all
  from Cons.IH [OF f] m w show ?case
    by (simp add: exec_Cons execute_scans_def)
qed

lemma shutdown_of_statements:
  assumes "flusher p = Not_called"
    and "case timer_thread (mgr p) of None \<Rightarrow> True | Some t \<Rightarrow> worker_at p t = At_loop_test"
  shows "mgr (exec ([Shutdown_set, Shutdown_lock]
            @ map (\<lambda>item. Shutdown_send now) (map snd (pending_scans (mgr p)))
            @ (case timer_thread (mgr p) of None \<Rightarrow> [] | Some t \<Rightarrow> [Worker_test t now])
            @ [Shutdown_join False]) p)
         = shutdown now (mgr p)"
proof -
  let ?q = "occur (occur p Shutdown_set) Shutdown_lock"
  from assms(1) have m: "mgr ?q = (mgr p)\<lparr>stop_event := True, pending_scans := []\<rparr>"
    and f: "flusher ?q = At_flush (map snd (pending_scans (mgr p)))"
    and w: "worker_at ?q = worker_at p"
    by simp_all
  let ?r = "exec (map (\<lambda>item. Shutdown_send now) (map snd (pending_scans (mgr p)))) ?q"
  from flush_run [OF f, of now] m w
  have mr: "mgr ?r = execute_scans Flush now (map snd (pending_scans (mgr p)))
        ((mgr p)\<lparr>stop_event := True, pending_scans := []\<rparr>)"
    and fr: "flusher ?r = At_flush []" and wr: "worker_at ?r = worker_at p"
    by simp_all
  have join: "mgr (occur x (Shutdown_join False)) = mgr x" for x
    by (simp split: shutdown_pc.splits list.splits)
  show ?thesis
  proof (cases "timer_thread (mgr p)")
    case None
    with mr show ?thesis
      by (simp add: exec_Cons exec_append exec_Nil join shutdown_def Let_def execute_scans_def
          del: occur.simps)
  next
    case (Some u)
    with assms(2) have "worker_at p u = At_loop_test" by simp
    then have wu: "worker_at ?r u = At_loop_test" by (simp only: wr)
    have "mgr (occur ?r (Worker_test u now))
        = (if is_alive (mgr ?r) u then finish u (mgr ?r) else mgr ?r)"
      using wu mr by (simp add: execute_scans_def)
    with mr Some show ?thesis
      by (simp add: exec_Cons exec_append exec_Nil join shutdown_def Let_def execute_scans_def
          pass_stopped is_alive_def del: occur.simps)
  qed
qed

section \<open>One worker at a time\<close>

lemma pass_threads:
  "timer_thread (batch_processor_pass t now m) = timer_thread m
   \<and> (threads (batch_processor_pass t now m) = threads m
      \<or> threads (batch_processor_pass t now m) = (threads m)[t := Finished])"
  by (auto simp: batch_processor_pass_def execute_scans_def finish_def Let_def split: prod.splits)

lemma pass_alive:
  "is_alive (batch_processor_pass t now m) t' \<Longrightarrow> is_alive m t'"
  using pass_threads [of t now m]
  by (cases "t' = t") (auto simp: is_alive_def)

lemma pass_unstarted:
  "is_alive m t \<Longrightarrow> u < length (threads m) \<Longrightarrow> threads m ! u = Unstarted \<Longrightarrow>
   u < length (threads (batch_processor_pass t now m))
   \<and> threads (batch_processor_pass t now m) ! u = Unstarted"
  using pass_threads [of t now m]
  by (cases "u = t") (auto simp: is_alive_def)

lemma one_caller_inv_step:
  assumes "one_caller_inv c s" and "by_caller c st"
  shows "one_caller_inv c (small_step s st)"
proof (cases st)
  case (Store c' now lib dir)
  with assms show ?thesis
    by (auto simp: one_caller_inv_def store_request_def is_alive_def)
next
  case (Check c')
  with assms show ?thesis
    by (auto simp: one_caller_inv_def timer_needed_def split: option.splits)
next
  case (Create c')
  with assms show ?thesis
    by (auto simp: one_caller_inv_def create_timer_def is_alive_def nth_append)
next
  case (Start c')
  with assms show ?thesis
    by (auto simp: one_caller_inv_def start_timer_def is_alive_def nth_list_update
        split: option.splits if_splits)
next
  case (Worker t now)
  show ?thesis
  proof (cases "is_alive (manager s) t")
    case False
    with Worker assms show ?thesis by simp
  next
    case True
    have "\<not> is_alive (manager s) t" if "callers s c = At_create \<or> callers s c = At_start"
      using that assms(1) by (auto simp: one_caller_inv_def)
    with True have pc: "callers s c \<noteq> At_create" "callers s c \<noteq> At_start" by auto
    from assms(1) have "\<forall>t'. is_alive (batch_processor_pass t now (manager s)) t' \<longrightarrow>
        timer_thread (batch_processor_pass t now (manager s)) = Some t'"
      using pass_alive [of t now "manager s"] pass_threads [of t now "manager s"]
      by (auto simp: one_caller_inv_def)
    with pc True Worker show ?thesis
      by (simp add: one_caller_inv_def)
  qed
qed

lemma one_caller_inv_interleave:
  "one_caller_inv c s \<Longrightarrow> list_all (by_caller c) steps \<Longrightarrow> one_caller_inv c (interleave steps s)"
  unfolding interleave_def
  by (induction steps arbitrary: s) (simp_all add: one_caller_inv_step)

lemma at_most_one_running:
  assumes "\<forall>i < length xs. xs ! i = Running \<longrightarrow> i = t"
  shows "length (filter (\<lambda>st. st = Running) xs) \<le> 1"
proof -
  have "length (filter (\<lambda>st. st = Running) xs) = card {i. i < length xs \<and> xs ! i = Running}"
    by (rule length_filter_conv_card)
  also have "\<dots> \<le> card {t}"
    using assms by (intro card_mono) auto
  finally show ?thesis by simp
qed

lemma none_running:
  assumes "\<forall>i < length xs. xs ! i \<noteq> Running"
  shows "length (filter (\<lambda>st. st = Running) xs) = 0"
  using assms by (auto simp: filter_empty_conv in_set_conv_nth)

text \<open>
  C8, as stated: for every interleaving of concurrent calls of \<^verbatim>\<open>add_scan_request\<close>,
  at most one worker is alive. The test of \<^verbatim>\<open>timer_thread\<close> and the start of the thread
  are outside the lock: when two callers both make the test before either creates its
  thread, each starts a worker, and two are alive.
\<close>

theorem concurrent_callers_counterexample:
  "alive_workers (manager (interleave
      [Store 0 0 ''1'' ''/lib/a'', Check 0, Store 1 0 ''1'' ''/lib/b'', Check 1,
       Create 0, Start 0, Create 1, Start 1] (initial_system 30))) = 2"
  by (simp add: interleave_def initial_system_def BatchScanManager_init_def store_request_def
      timer_needed_def create_timer_def start_timer_def is_alive_def alive_workers_def scan_key_def)

text \<open>
  C8, amended: when all calls of \<^verbatim>\<open>add_scan_request\<close> come from one thread, however
  the passes of the workers fall between its statements, at most one worker is alive at
  any time, and none is alive between the caller's finding that a worker is needed and
  its starting one.
\<close>

theorem single_caller_one_worker:
  assumes "list_all (by_caller c) steps"
  shows "alive_workers (manager (interleave steps (initial_system delay))) \<le> 1
         \<and> (callers (interleave steps (initial_system delay)) c = At_create
              \<or> callers (interleave steps (initial_system delay)) c = At_start
            \<longrightarrow> alive_workers (manager (interleave steps (initial_system delay))) = 0)"
proof -
  let ?s = "interleave steps (initial_system delay)"
  have "one_caller_inv c (initial_system delay)"
    by (simp add: one_caller_inv_def initial_system_def BatchScanManager_init_def is_alive_def)
  from one_caller_inv_interleave [OF this assms] have inv: "one_caller_inv c ?s" .
  have a: "alive_workers (manager ?s) \<le> 1"
  proof (cases "timer_thread (manager ?s)")
    case None
    with inv have "\<forall>i < length (threads (manager ?s)). threads (manager ?s) ! i \<noteq> Running"
      by (auto simp: one_caller_inv_def is_alive_def)
    from none_running [OF this] show ?thesis by (simp add: alive_workers_def)
  next
    case (Some t)
    with inv have "\<forall>i < length (threads (manager ?s)). threads (manager ?s) ! i = Running \<longrightarrow> i = t"
      by (auto simp: one_caller_inv_def is_alive_def)
    from at_most_one_running [OF this] show ?thesis by (simp add: alive_workers_def)
  qed
  have b: "alive_workers (manager ?s) = 0"
    if "callers ?s c = At_create \<or> callers ?s c = At_start"
  proof -
    from inv that have "\<forall>i < length (threads (manager ?s)). threads (manager ?s) ! i \<noteq> Running"
      by (auto simp: one_caller_inv_def is_alive_def)
    from none_running [OF this] show ?thesis by (simp add: alive_workers_def)
  qed
  from a b show ?thesis by blast
qed

theorem single_caller_one_worker_witness:
  "alive_workers (manager (interleave
      [Store 0 0 ''1'' ''/lib/a'', Check 0, Create 0, Start 0, Worker 0 1,
       Store 0 2 ''1'' ''/lib/b'', Check 0, Worker 0 40] (initial_system 30))) \<le> 1"
proof -
  have "list_all (by_caller 0)
      [Store 0 0 ''1'' ''/lib/a'', Check 0, Create 0, Start 0, Worker 0 1,
       Store 0 2 ''1'' ''/lib/b'', Check 0, Worker 0 40]"
    by simp
  from single_caller_one_worker [OF this, of 30] show ?thesis by blast
qed

lemma statements_of_add_scan_request:
  "callers s c = Idle \<Longrightarrow>
   manager (interleave [Store c now lib dir, Check c, Create c, Start c] s)
     = add_scan_request now lib dir (manager s)"
  by (simp add: interleave_def add_scan_request_def Let_def start_created_timer store_request_def
      timer_needed_def is_alive_def split: option.splits)


section \<open>The rolling window\<close>





lemma timer_waiting: "timer_thread (waiting m lib dir ts) = Some (length (threads m))"
  by (simp add: waiting_def)












end
